theory Spec2Isabelle
  imports Main
begin

section \<open>Values of the search\<close>

text \<open>
  The search compares utilities with the two sentinels \<^verbatim>\<open>float("-inf")\<close> and
  \<^verbatim>\<open>float("inf")\<close>. A value is therefore either one of the two infinities or a finite
  number; the finite utilities of the game (-1, 0, +1 in the notebook's docstrings) are
  integers here. Only the order of the values matters to the code (\<^verbatim>\<open>min\<close>, \<^verbatim>\<open>max\<close>,
  \<^verbatim>\<open><=\<close>, \<^verbatim>\<open>>=\<close>, \<^verbatim>\<open>>\<close>), so the type is made a linear order.
\<close>

datatype score = NegInf | Fin int | PosInf

instantiation score :: linorder
begin

fun less_eq_score :: "score \<Rightarrow> score \<Rightarrow> bool" where
  "less_eq_score NegInf y = True"
| "less_eq_score (Fin x) NegInf = False"
| "less_eq_score (Fin x) (Fin y) = (x \<le> y)"
| "less_eq_score (Fin x) PosInf = True"
| "less_eq_score PosInf PosInf = True"
| "less_eq_score PosInf y = False"

definition less_score :: "score \<Rightarrow> score \<Rightarrow> bool" where
  "less_score x y = (x \<le> y \<and> \<not> y \<le> x)"

instance
proof
  fix x y z :: score
  show "(x < y) = (x \<le> y \<and> \<not> y \<le> x)" by (simp add: less_score_def)
  show "x \<le> x" by (cases x) simp_all
  show "x \<le> y \<Longrightarrow> y \<le> z \<Longrightarrow> x \<le> z" by (cases x; cases y; cases z) simp_all
  show "x \<le> y \<Longrightarrow> y \<le> x \<Longrightarrow> x = y" by (cases x; cases y) simp_all
  show "x \<le> y \<or> y \<le> x" by (cases x; cases y) auto
qed

end

section \<open>Game states\<close>

text \<open>
  Modelled from the spec: the module \<^verbatim>\<open>gamestate\<close> (class \<^verbatim>\<open>GameState\<close>) is imported by
  both notebooks but is not among the sources. The code under study reads a state only
  through \<^verbatim>\<open>terminal_test()\<close>, \<^verbatim>\<open>utility(player_id)\<close>, \<^verbatim>\<open>actions()\<close>, \<^verbatim>\<open>result(a)\<close>,
  \<^verbatim>\<open>_parity\<close> and \<^verbatim>\<open>hashable\<close> (section 6 of the specification lists the same
  interface). A state is modelled by what these observers answer: its own answers and,
  for every legal action in the order of \<^verbatim>\<open>actions()\<close>, the action paired with the state
  \<^verbatim>\<open>result(action)\<close>. States are immutable values and every game considered is finite, so
  a state is a finite tree. Nothing ties \<^verbatim>\<open>terminal_test\<close> to the list of moves: a terminal
  state may list moves and a non-terminal one may list none, as the Python interface
  allows; the theorems that need more say so.
\<close>

datatype ('a, 'k) GameState =
  GameState (terminal_test: bool) (utility: "nat \<Rightarrow> score") (parity: nat) (hashable: 'k)
    (moves: "('a \<times> ('a, 'k) GameState) list")

definition actions :: "('a, 'k) GameState \<Rightarrow> 'a list" where
  "actions s = map fst (moves s)"

section \<open>Alpha-beta search (04. minimax.ipynb)\<close>

text \<open>
  \<^verbatim>\<open>min_value\<close> and \<^verbatim>\<open>max_value\<close> with their \<^verbatim>\<open>for a in gameState.actions()\<close> loops.
  A loop function takes the moves still to be visited and the loop's variables
  \<^verbatim>\<open>v\<close>, \<^verbatim>\<open>alpha\<close>, \<^verbatim>\<open>beta\<close>; the \<^verbatim>\<open>return v\<close> inside the loop is the branch that does not
  recurse. Both evaluators ask for \<^verbatim>\<open>gameState.utility(0)\<close>.
\<close>

fun min_value :: "('a, 'k) GameState \<Rightarrow> score \<Rightarrow> score \<Rightarrow> score"
  and min_loop :: "('a \<times> ('a, 'k) GameState) list \<Rightarrow> score \<Rightarrow> score \<Rightarrow> score \<Rightarrow> score"
  and max_value :: "('a, 'k) GameState \<Rightarrow> score \<Rightarrow> score \<Rightarrow> score"
  and max_loop :: "('a \<times> ('a, 'k) GameState) list \<Rightarrow> score \<Rightarrow> score \<Rightarrow> score \<Rightarrow> score"
where
  "min_value (GameState t u p h ms) alpha beta =
     (if t then u 0 else min_loop ms PosInf alpha beta)"
| "min_loop [] v alpha beta = v"
| "min_loop ((a, c) # ms) v alpha beta =
     (let v' = min v (max_value c alpha beta)
      in if v' \<le> alpha then v' else min_loop ms v' alpha (min beta v'))"
| "max_value (GameState t u p h ms) alpha beta =
     (if t then u 0 else max_loop ms NegInf alpha beta)"
| "max_loop [] v alpha beta = v"
| "max_loop ((a, c) # ms) v alpha beta =
     (let v' = max v (min_value c alpha beta)
      in if beta \<le> v' then v' else max_loop ms v' (max alpha v') beta)"

text \<open>
  The loop of \<^verbatim>\<open>alpha_beta_search\<close>: \<^verbatim>\<open>best_move\<close> starts as \<^verbatim>\<open>None\<close> and is replaced
  only when \<^verbatim>\<open>v > best_score\<close>.
\<close>

fun search_loop ::
  "('a \<times> ('a, 'k) GameState) list \<Rightarrow> score \<Rightarrow> score \<Rightarrow> score \<Rightarrow> 'a option \<Rightarrow> 'a option"
where
  "search_loop [] alpha beta best_score best_move = best_move"
| "search_loop ((a, c) # ms) alpha beta best_score best_move =
     (let v = min_value c alpha beta; alpha' = max alpha v
      in if best_score < v then search_loop ms alpha' beta v (Some a)
         else search_loop ms alpha' beta best_score best_move)"

definition alpha_beta_search :: "('a, 'k) GameState \<Rightarrow> 'a option" where
  "alpha_beta_search gameState = search_loop (moves gameState) NegInf PosInf NegInf None"

text \<open>
  The two loops once more, returning with their value the calls they make: one entry
  \<open>(state, alpha, beta)\<close> for every \<^verbatim>\<open>max_value(gameState.result(a), alpha, beta)\<close> (in
  \<^verbatim>\<open>min_value\<close>) or \<^verbatim>\<open>min_value(gameState.result(a), alpha, beta)\<close> (in \<^verbatim>\<open>max_value\<close>)
  that the loop executes, in order, with the values \<^verbatim>\<open>alpha\<close> and \<^verbatim>\<open>beta\<close> have at that
  moment. The window with which the next sibling is evaluated shows in these arguments.
\<close>

fun min_loop_calls ::
  "('a \<times> ('a, 'k) GameState) list \<Rightarrow> score \<Rightarrow> score \<Rightarrow> score \<Rightarrow>
   score \<times> (('a, 'k) GameState \<times> score \<times> score) list"
where
  "min_loop_calls [] v alpha beta = (v, [])"
| "min_loop_calls ((a, c) # ms) v alpha beta =
     (let v' = min v (max_value c alpha beta)
      in if v' \<le> alpha then (v', [(c, alpha, beta)])
         else (let (r, calls) = min_loop_calls ms v' alpha (min beta v')
               in (r, (c, alpha, beta) # calls)))"

fun max_loop_calls ::
  "('a \<times> ('a, 'k) GameState) list \<Rightarrow> score \<Rightarrow> score \<Rightarrow> score \<Rightarrow>
   score \<times> (('a, 'k) GameState \<times> score \<times> score) list"
where
  "max_loop_calls [] v alpha beta = (v, [])"
| "max_loop_calls ((a, c) # ms) v alpha beta =
     (let v' = max v (min_value c alpha beta)
      in if beta \<le> v' then (v', [(c, alpha, beta)])
         else (let (r, calls) = max_loop_calls ms v' (max alpha v') beta
               in (r, (c, alpha, beta) # calls)))"



section \<open>Plain minimax, the reference of the specification\<close>

text \<open>
  The specification compares the search with plain, unpruned minimax with the same
  first-action-wins tie-breaking. This is that reference, written from the
  specification's words: the same evaluators without a window and without the early
  return.
\<close>

fun minimax_min_value :: "('a, 'k) GameState \<Rightarrow> score"
  and minimax_min_loop :: "('a \<times> ('a, 'k) GameState) list \<Rightarrow> score \<Rightarrow> score"
  and minimax_max_value :: "('a, 'k) GameState \<Rightarrow> score"
  and minimax_max_loop :: "('a \<times> ('a, 'k) GameState) list \<Rightarrow> score \<Rightarrow> score"
where
  "minimax_min_value (GameState t u p h ms) = (if t then u 0 else minimax_min_loop ms PosInf)"
| "minimax_min_loop [] v = v"
| "minimax_min_loop ((a, c) # ms) v = minimax_min_loop ms (min v (minimax_max_value c))"
| "minimax_max_value (GameState t u p h ms) = (if t then u 0 else minimax_max_loop ms NegInf)"
| "minimax_max_loop [] v = v"
| "minimax_max_loop ((a, c) # ms) v = minimax_max_loop ms (max v (minimax_min_value c))"

fun minimax_loop :: "('a \<times> ('a, 'k) GameState) list \<Rightarrow> score \<Rightarrow> 'a option \<Rightarrow> 'a option" where
  "minimax_loop [] best_score best_move = best_move"
| "minimax_loop ((a, c) # ms) best_score best_move =
     (let v = minimax_min_value c
      in if best_score < v then minimax_loop ms v (Some a)
         else minimax_loop ms best_score best_move)"

definition minimax_decision :: "('a, 'k) GameState \<Rightarrow> 'a option" where
  "minimax_decision gameState = minimax_loop (moves gameState) NegInf None"

text \<open>
  What a windowed evaluation \<open>r\<close> says about the true value \<open>m\<close>: exact inside the
  window, and on the same side of the window outside it.
\<close>

definition window_ok :: "'v::linorder \<Rightarrow> 'v \<Rightarrow> 'v \<Rightarrow> 'v \<Rightarrow> bool" where
  "window_ok alpha beta m r \<longleftrightarrow>
     (m \<le> alpha \<longrightarrow> r \<le> alpha) \<and> (beta \<le> m \<longrightarrow> beta \<le> r) \<and>
     (alpha < m \<and> m < beta \<longrightarrow> r = m)"

section \<open>Conditions on a game\<close>

text \<open>
  \<open>playable\<close>: every non-terminal state met before a terminal one has a legal action
  (the glossary of the specification calls a position without legal moves terminal).
  \<open>no_neg_inf\<close>: no terminal state met has utility \<^verbatim>\<open>float("-inf")\<close> for player 0.
\<close>

fun playable :: "('a, 'k) GameState \<Rightarrow> bool"
  and playable_moves :: "('a \<times> ('a, 'k) GameState) list \<Rightarrow> bool"
where
  "playable (GameState t u p h ms) = (t \<or> (ms \<noteq> [] \<and> playable_moves ms))"
| "playable_moves [] = True"
| "playable_moves ((a, c) # ms) = (playable c \<and> playable_moves ms)"

fun no_neg_inf :: "('a, 'k) GameState \<Rightarrow> bool"
  and no_neg_inf_moves :: "('a \<times> ('a, 'k) GameState) list \<Rightarrow> bool"
where
  "no_neg_inf (GameState t u p h ms) = (if t then u 0 \<noteq> NegInf else no_neg_inf_moves ms)"
| "no_neg_inf_moves [] = True"
| "no_neg_inf_moves ((a, c) # ms) = (no_neg_inf c \<and> no_neg_inf_moves ms)"

section \<open>The evaluators' loops in the specification's words\<close>







text \<open>
  The values \<^verbatim>\<open>v\<close> that the loop of \<^verbatim>\<open>alpha_beta_search\<close> computes, one per action, each
  with the \<^verbatim>\<open>alpha\<close> the loop holds when it reaches that action.
\<close>

fun root_evals :: "('a \<times> ('a, 'k) GameState) list \<Rightarrow> score \<Rightarrow> score \<Rightarrow> score list" where
  "root_evals [] alpha beta = []"
| "root_evals ((a, c) # ms) alpha beta =
     (let v = min_value c alpha beta in v # root_evals ms (max alpha v) beta)"

section \<open>Opening book (second notebook cell)\<close>

text \<open>
  \<^verbatim>\<open>random.choice\<close> is the only source of randomness. The random draws are an explicit
  tape \<open>nat \<Rightarrow> nat\<close> read at a position that every draw advances; a draw \<open>r\<close> on a
  sequence of length \<open>l\<close> picks the element at index \<open>r mod l\<close>, so every element can be
  picked. \<^verbatim>\<open>random.choice\<close> of an empty sequence raises \<^verbatim>\<open>IndexError\<close>; \<^verbatim>\<open>max\<close> of an
  empty iterable raises \<^verbatim>\<open>ValueError\<close>.
\<close>

datatype py_error = IndexError | ValueError

definition choice :: "(nat \<Rightarrow> nat) \<Rightarrow> nat \<Rightarrow> 'x list \<Rightarrow> py_error + ('x \<times> nat)" where
  "choice tape n xs =
     (if xs = [] then Inl IndexError else Inr (xs ! (tape n mod length xs), Suc n))"

text \<open>
  The \<^verbatim>\<open>while not state.terminal_test()\<close> loop of \<^verbatim>\<open>simulate\<close>; it returns the terminal
  state it reaches and the tape position.
\<close>

function sim_loop ::
  "(nat \<Rightarrow> nat) \<Rightarrow> nat \<Rightarrow> ('a, 'k) GameState \<Rightarrow> py_error + (('a, 'k) GameState \<times> nat)"
where
  "sim_loop tape n state =
     (if terminal_test state then Inr (state, n)
      else (case choice tape n (moves state) of
              Inl e \<Rightarrow> Inl e
            | Inr ((a, c), n') \<Rightarrow> sim_loop tape n' c))"
  by pat_completeness auto
termination
proof (relation "measure (\<lambda>(tape, n, state). size state)")
  show "wf (measure (\<lambda>(tape, n, state). size state))"
    by simp
next
  fix tape :: "nat \<Rightarrow> nat" and n :: nat and state :: "('a, 'k) GameState"
    and x :: "('a \<times> ('a, 'k) GameState) \<times> nat" and y :: "'a \<times> ('a, 'k) GameState"
    and n' :: nat and a :: 'a and c :: "('a, 'k) GameState"
  assume ch: "choice tape n (moves state) = Inr x" and x: "(y, n') = x" and y: "(a, c) = y"
  from ch x y have nz: "moves state \<noteq> []"
    and pick: "(a, c) = moves state ! (tape n mod length (moves state))"
    by (auto simp: choice_def split: if_splits)
  from nz have "tape n mod length (moves state) < length (moves state)"
    by simp
  then have mem: "(a, c) \<in> set (moves state)"
    unfolding pick by (rule nth_mem)
  have "size c < size state"
  proof (cases state)
    case (GameState t u p h ms)
    with mem have "(a, c) \<in> set ms"
      by simp
    then have "size_prod (\<lambda>_. 0) size (a, c) \<le> size_list (size_prod (\<lambda>_. 0) size) ms"
      by (rule size_list_estimation') simp
    with GameState show ?thesis
      by simp
  qed
  then show "((tape, n', c), (tape, n, state)) \<in> measure (\<lambda>(tape, n, state). size state)"
    by simp
qed

definition simulate ::
  "(nat \<Rightarrow> nat) \<Rightarrow> nat \<Rightarrow> ('a, 'k) GameState \<Rightarrow> py_error + (int \<times> nat)"
where
  "simulate tape n state =
     (let player_id = parity state
      in case sim_loop tape n state of
           Inl e \<Rightarrow> Inl e
         | Inr (final, n') \<Rightarrow> Inr (if utility final player_id < Fin 0 then - 1 else 1, n'))"

text \<open>
  The book is a \<^verbatim>\<open>defaultdict(Counter)\<close>: association lists in insertion order, as
  Python dictionaries iterate. \<open>book_add\<close> is \<^verbatim>\<open>book[k][a] += reward\<close>, where a missing
  key yields an empty counter and a missing action counts 0; \<open>tally\<close> reads
  \<^verbatim>\<open>book[k][a]\<close> the same way.
\<close>

fun counter_add :: "('a \<times> int) list \<Rightarrow> 'a \<Rightarrow> int \<Rightarrow> ('a \<times> int) list" where
  "counter_add [] a reward = [(a, 0 + reward)]"
| "counter_add ((b, m) # cs) a reward =
     (if b = a then (b, m + reward) # cs else (b, m) # counter_add cs a reward)"

fun book_add ::
  "('k \<times> ('a \<times> int) list) list \<Rightarrow> 'k \<Rightarrow> 'a \<Rightarrow> int \<Rightarrow> ('k \<times> ('a \<times> int) list) list"
where
  "book_add [] k a reward = [(k, counter_add [] a reward)]"
| "book_add ((j, cs) # book) k a reward =
     (if j = k then (j, counter_add cs a reward) # book
      else (j, cs) # book_add book k a reward)"

definition tally :: "('k \<times> ('a \<times> int) list) list \<Rightarrow> 'k \<Rightarrow> 'a \<Rightarrow> int" where
  "tally book k a =
     (case map_of book k of
        None \<Rightarrow> 0
      | Some cs \<Rightarrow> (case map_of cs a of None \<Rightarrow> 0 | Some m \<Rightarrow> m))"

function build_tree ::
  "(nat \<Rightarrow> nat) \<Rightarrow> nat \<Rightarrow> ('a, 'k) GameState \<Rightarrow> ('k \<times> ('a \<times> int) list) list \<Rightarrow> int \<Rightarrow>
   py_error + (int \<times> ('k \<times> ('a \<times> int) list) list \<times> nat)"
where
  "build_tree tape n state book depth =
     (if depth \<le> 0 \<or> terminal_test state then
        (case simulate tape n state of
           Inl e \<Rightarrow> Inl e
         | Inr (r, n') \<Rightarrow> Inr (- r, book, n'))
      else
        (case choice tape n (moves state) of
           Inl e \<Rightarrow> Inl e
         | Inr ((action, child), n1) \<Rightarrow>
             (case build_tree tape n1 child book (depth - 1) of
                Inl e \<Rightarrow> Inl e
              | Inr (reward, book', n2) \<Rightarrow>
                  Inr (- reward, book_add book' (hashable state) action reward, n2))))"
  by pat_completeness auto
termination
  by (relation "measure (\<lambda>(tape, n, state, book, depth). nat depth)") auto

text \<open>
  \<^verbatim>\<open>build_table\<close>: the \<^verbatim>\<open>for _ in range(num_rounds)\<close> loop, each round from the initial
  state \<^verbatim>\<open>GameState()\<close> (a parameter here, the constructor being part of the missing
  module) with the default \<^verbatim>\<open>depth=2\<close>, then the dictionary comprehension with
  \<^verbatim>\<open>max(v, key=v.get)\<close>, which returns the first key of greatest count.
\<close>

fun rounds ::
  "(nat \<Rightarrow> nat) \<Rightarrow> nat \<Rightarrow> ('a, 'k) GameState \<Rightarrow> ('k \<times> ('a \<times> int) list) list \<Rightarrow> nat \<Rightarrow>
   py_error + (('k \<times> ('a \<times> int) list) list \<times> nat)"
where
  "rounds tape n state book 0 = Inr (book, n)"
| "rounds tape n state book (Suc k) =
     (case build_tree tape n state book 2 of
        Inl e \<Rightarrow> Inl e
      | Inr (r, book', n') \<Rightarrow> rounds tape n' state book' k)"

fun max_key_loop :: "('a \<times> int) list \<Rightarrow> 'a \<Rightarrow> int \<Rightarrow> 'a" where
  "max_key_loop [] best best_count = best"
| "max_key_loop ((a, m) # cs) best best_count =
     (if best_count < m then max_key_loop cs a m else max_key_loop cs best best_count)"

fun max_key :: "('a \<times> int) list \<Rightarrow> py_error + 'a" where
  "max_key [] = Inl ValueError"
| "max_key ((a, m) # cs) = Inr (max_key_loop cs a m)"

fun collapse :: "('k \<times> ('a \<times> int) list) list \<Rightarrow> py_error + ('k \<times> 'a) list" where
  "collapse [] = Inr []"
| "collapse ((k, cs) # book) =
     (case max_key cs of
        Inl e \<Rightarrow> Inl e
      | Inr a \<Rightarrow> (case collapse book of Inl e \<Rightarrow> Inl e | Inr table \<Rightarrow> Inr ((k, a) # table)))"

definition build_table ::
  "(nat \<Rightarrow> nat) \<Rightarrow> ('a, 'k) GameState \<Rightarrow> int \<Rightarrow> py_error + ('k \<times> 'a) list"
where
  "build_table tape initial num_rounds =
     (case rounds tape 0 initial [] (nat num_rounds) of
        Inl e \<Rightarrow> Inl e
      | Inr (book, n) \<Rightarrow> collapse book)"

text \<open>
  The episodes in the specification's words (section 4.2): an episode descends from its
  starting state, choosing at each ply one of the legal actions at random, until the
  depth is exhausted or the state is terminal; the rollout starts at the state reached.
  \<open>descend\<close> gives the (state, action) pairs of the descent, the state at which the rollout
  starts and the tape position there; \<open>episode_end\<close> the tape position after the rollout;
  \<open>episodes\<close> the pairs of all rounds, every round starting at the initial state with the
  depth 2 and at the tape position where the round before ended.
\<close>

fun descend ::
  "(nat \<Rightarrow> nat) \<Rightarrow> nat \<Rightarrow> ('a, 'k) GameState \<Rightarrow> nat \<Rightarrow>
   (('a, 'k) GameState \<times> 'a) list \<times> ('a, 'k) GameState \<times> nat"
where
  "descend tape n state 0 = ([], state, n)"
| "descend tape n state (Suc d) =
     (if terminal_test state then ([], state, n)
      else (case choice tape n (moves state) of
              Inl e \<Rightarrow> ([], state, n)
            | Inr ((action, child), n1) \<Rightarrow>
                (let (pairs, start, n2) = descend tape n1 child d
                 in ((state, action) # pairs, start, n2))))"

definition episode_end :: "(nat \<Rightarrow> nat) \<Rightarrow> nat \<Rightarrow> ('a, 'k) GameState \<Rightarrow> nat \<Rightarrow> nat" where
  "episode_end tape n state d =
     (let (pairs, start, n1) = descend tape n state d
      in case sim_loop tape n1 start of Inl e \<Rightarrow> n1 | Inr (final, n2) \<Rightarrow> n2)"

fun episodes ::
  "(nat \<Rightarrow> nat) \<Rightarrow> nat \<Rightarrow> ('a, 'k) GameState \<Rightarrow> nat \<Rightarrow> (('a, 'k) GameState \<times> 'a) list"
where
  "episodes tape n initial 0 = []"
| "episodes tape n initial (Suc k) =
     fst (descend tape n initial 2) @ episodes tape (episode_end tape n initial 2) initial k"

section \<open>Example games\<close>

text \<open>
  Small games used to evaluate the definitions. Actions are (column, row) pairs and
  keys are numbers. In \<open>won_leaf\<close> and \<open>lost_leaf\<close> the game is over; player 0 has won
  the first and lost the second.
\<close>

definition won_leaf :: "(nat \<times> nat, nat) GameState" where
  "won_leaf = GameState True (\<lambda>p. if p = 0 then Fin 1 else Fin (- 1)) 1 10 []"

definition lost_leaf :: "(nat \<times> nat, nat) GameState" where
  "lost_leaf = GameState True (\<lambda>p. if p = 0 then Fin (- 1) else Fin 1) 0 11 []"

definition drawn_leaf :: "(nat \<times> nat, nat) GameState" where
  "drawn_leaf = GameState True (\<lambda>p. Fin 0) 1 12 []"

definition reply_state :: "(nat \<times> nat, nat) GameState" where
  "reply_state = GameState False (\<lambda>p. Fin 0) 1 2 [((1, 1), lost_leaf), ((2, 0), lost_leaf)]"

definition small_game :: "(nat \<times> nat, nat) GameState" where
  "small_game =
     GameState False (\<lambda>p. Fin 0) 0 1
       [((0, 0), reply_state), ((1, 0), won_leaf), ((0, 1), won_leaf)]"

text \<open>
  A state at which player 1 is to move; the move ends the game at \<open>lost_leaf\<close>, where
  player 0 is to move and has lost, so player 1 has won.
\<close>

definition second_player_game :: "(nat \<times> nat, nat) GameState" where
  "second_player_game = GameState False (\<lambda>p. Fin 0) 1 1 [((0, 0), lost_leaf)]"

text \<open>A state whose only move loses with utility \<^verbatim>\<open>float("-inf")\<close> for player 0.\<close>

definition doomed_state :: "(nat \<times> nat, nat) GameState" where
  "doomed_state =
     GameState False (\<lambda>p. Fin 0) 0 1
       [((0, 0), GameState True (\<lambda>p. if p = 0 then NegInf else PosInf) 1 2 [])]"

text \<open>
  A game of three plies with a single line of play; at \<open>chain_rollout\<close> player 0 is to
  move and goes on to win at \<open>won_leaf\<close>.
\<close>

definition chain_rollout :: "(nat \<times> nat, nat) GameState" where
  "chain_rollout = GameState False (\<lambda>p. Fin 0) 0 3 [((2, 0), won_leaf)]"

definition chain_reply :: "(nat \<times> nat, nat) GameState" where
  "chain_reply = GameState False (\<lambda>p. Fin 0) 1 2 [((1, 0), chain_rollout)]"

definition chain_game :: "(nat \<times> nat, nat) GameState" where
  "chain_game = GameState False (\<lambda>p. Fin 0) 0 1 [((0, 0), chain_reply)]"

definition drawn_game :: "(nat \<times> nat, nat) GameState" where
  "drawn_game = GameState False (\<lambda>p. Fin 0) 0 1 [((0, 0), drawn_leaf)]"

text \<open>The tape on which every draw is 0: \<^verbatim>\<open>random.choice\<close> always picks the first element.\<close>

definition zero_tape :: "nat \<Rightarrow> nat" where
  "zero_tape n = 0"

section \<open>An invariant of the book\<close>

text \<open>
  The book holds exactly the given (state, action) pairs: its keys are distinct and are
  the keys of the states of the pairs, every counter has an entry, and every action counted
  under a key belongs to a pair whose state has that key.
\<close>

definition book_rec ::
  "(('a, 'k) GameState \<times> 'a) set \<Rightarrow> ('k \<times> ('a \<times> int) list) list \<Rightarrow> bool"
where
  "book_rec pairs book \<longleftrightarrow>
     distinct (map fst book) \<and>
     set (map fst book) = (\<lambda>(s, a). hashable s) ` pairs \<and>
     (\<forall>(k, cs) \<in> set book. cs \<noteq> [] \<and>
        (\<forall>(a, m) \<in> set cs. \<exists>s. (s, a) \<in> pairs \<and> hashable s = k))"

section \<open>Properties of the order on values\<close>

lemma NegInf_least [simp]: "NegInf \<le> (x::score)"
  by simp

lemma PosInf_greatest [simp]: "(x::score) \<le> PosInf"
  by (cases x) simp_all

lemma not_less_NegInf [simp]: "\<not> (x::score) < NegInf"
  by (simp add: less_score_def)

lemma not_PosInf_less [simp]: "\<not> PosInf < (x::score)"
  by (simp add: less_score_def)

lemma min_PosInf [simp]: "min PosInf (x::score) = x" "min x PosInf = x"
  by (simp_all add: min_def antisym)

lemma max_NegInf [simp]: "max NegInf (x::score) = x" "max x NegInf = x"
  by (simp_all add: max_def antisym)

lemma Fin_less_eq [simp]: "(Fin x < Fin y) = (x < y)"
  by (auto simp: less_score_def)

lemma NegInf_less_Fin [simp]: "NegInf < Fin x" "Fin x < PosInf" "NegInf < PosInf"
  by (simp_all add: less_score_def)

section \<open>Pruning does not change the decision\<close>

lemma min_step:
  fixes alpha beta v p x M r :: "'a::linorder"
  assumes ab: "alpha < beta" and bv: "beta \<le> v"
    and child: "window_ok alpha beta p x"
    and rest: "\<not> min v x \<le> alpha \<Longrightarrow> window_ok alpha (min beta (min v x)) (min (min v x) M) r \<and> r \<le> min v x"
    and ret: "min v x \<le> alpha \<Longrightarrow> r = min v x"
  shows "window_ok alpha beta (min (min v p) M) r \<and> r \<le> v"
proof (cases "min v x \<le> alpha")
  case True
  then have r: "r = min v x" by (rule ret)
  from True ab bv have xa: "x \<le> alpha" by (auto simp: min_le_iff_disj)
  have pa: "p \<le> alpha"
  proof (rule ccontr)
    assume "\<not> p \<le> alpha"
    then have "alpha < p" by simp
    with child have "beta \<le> x \<or> x = p" unfolding window_ok_def by (cases "p < beta") auto
    with xa ab \<open>alpha < p\<close> show False by auto
  qed
  have ma: "min (min v p) M \<le> alpha" using pa by (simp add: min_le_iff_disj)
  have nb: "\<not> beta \<le> min (min v p) M"
  proof
    assume "beta \<le> min (min v p) M"
    then have "beta \<le> alpha" using ma by (rule order_trans)
    with ab show False by simp
  qed
  have na: "\<not> alpha < min (min v p) M" using ma by (simp only: not_less)
  have ra: "r \<le> alpha" using r True by simp
  have rv: "r \<le> v" using r by simp
  from nb na ra rv show ?thesis unfolding window_ok_def by blast
next
  case False
  from rest [OF False] have IH: "window_ok alpha (min beta (min v x)) (min (min v x) M) r"
    and rv: "r \<le> min v x" by simp_all
  from False have xa: "alpha < x" and va: "alpha < v" by (auto simp: min_le_iff_disj)
  have pa: "alpha < p"
  proof (rule ccontr)
    assume "\<not> alpha < p"
    then have "p \<le> alpha" by simp
    with child have "x \<le> alpha" unfolding window_ok_def by simp
    with xa show False by simp
  qed
  have rv': "r \<le> v" using rv by simp
  show ?thesis
  proof (cases "p < beta")
    case True
    with child pa have xp: "x = p" unfolding window_ok_def by simp
    let ?m = "min (min v p) M"
    have mv: "?m \<le> min v p" by (rule min.cobounded1)
    have c1: "?m \<le> alpha \<longrightarrow> r \<le> alpha" using IH xp unfolding window_ok_def by simp
    have c2: "beta \<le> ?m \<longrightarrow> beta \<le> r"
    proof
      assume b: "beta \<le> ?m"
      then have "beta \<le> min v p" using mv by (rule order_trans)
      then have "min beta (min v p) = beta" by (simp add: min_absorb1)
      with IH xp b show "beta \<le> r" unfolding window_ok_def by simp
    qed
    have c3: "alpha < ?m \<and> ?m < beta \<longrightarrow> r = ?m"
    proof
      assume h: "alpha < ?m \<and> ?m < beta"
      show "r = ?m"
      proof (cases "?m < min beta (min v p)")
        case True
        with IH xp h show ?thesis unfolding window_ok_def by simp
      next
        case False
        then have le: "min beta (min v p) \<le> ?m" by (simp only: not_less)
        with IH xp have br: "min beta (min v p) \<le> r" unfolding window_ok_def by simp
        from le have disj: "beta \<le> ?m \<or> min v p \<le> ?m" by (simp only: min_le_iff_disj)
        from h have mb: "?m < beta" by (rule conjunct2)
        then have "\<not> beta \<le> ?m" by (simp only: not_le)
        with disj have vm: "min v p \<le> ?m" by blast
        from vm mb have "min v p < beta" by (rule le_less_trans)
        then have "min beta (min v p) = min v p" by (simp add: min_absorb2)
        with br have "min v p \<le> r" by simp
        moreover from rv xp have "r \<le> min v p" by simp
        ultimately have "r = min v p" by simp
        moreover from mv vm have "?m = min v p" by (rule antisym)
        ultimately show ?thesis by simp
      qed
    qed
    from c1 c2 c3 rv' show ?thesis unfolding window_ok_def by simp
  next
    case False
    then have bp: "beta \<le> p" by simp
    with child have bx: "beta \<le> x" unfolding window_ok_def by simp
    have b': "min beta (min v x) = beta" using bx bv by (simp add: min_absorb1)
    from IH b' have IH': "window_ok alpha beta (min (min v x) M) r" by simp
    have vx: "beta \<le> min v x" and vp: "beta \<le> min v p" using bx bp bv by simp_all
    have c1: "min (min v p) M \<le> alpha \<longrightarrow> r \<le> alpha"
    proof
      assume "min (min v p) M \<le> alpha"
      with vp ab have "M \<le> alpha" by (auto simp: min_le_iff_disj)
      then have "min (min v x) M \<le> alpha" by (simp add: min_le_iff_disj)
      with IH' show "r \<le> alpha" unfolding window_ok_def by simp
    qed
    have c2: "beta \<le> min (min v p) M \<longrightarrow> beta \<le> r"
    proof
      assume "beta \<le> min (min v p) M"
      then have "beta \<le> M" by simp
      with vx have "beta \<le> min (min v x) M" by simp
      with IH' show "beta \<le> r" unfolding window_ok_def by simp
    qed
    have c3: "alpha < min (min v p) M \<and> min (min v p) M < beta \<longrightarrow> r = min (min v p) M"
    proof
      assume h: "alpha < min (min v p) M \<and> min (min v p) M < beta"
      with vp have Mb: "M < beta" by (auto simp: min_less_iff_disj)
      from Mb vp have "M < min v p" by (rule less_le_trans)
      then have e1: "min (min v p) M = M" by (rule min_absorb2 [OF less_imp_le])
      from Mb vx have "M < min v x" by (rule less_le_trans)
      then have e2: "min (min v x) M = M" by (rule min_absorb2 [OF less_imp_le])
      from IH' h e1 e2 show "r = min (min v p) M" unfolding window_ok_def by simp
    qed
    from c1 c2 c3 rv' show ?thesis unfolding window_ok_def by simp
  qed
qed

lemma max_step:
  fixes alpha beta v p x M r :: "'a::linorder"
  assumes ab: "alpha < beta" and va: "v \<le> alpha"
    and child: "window_ok alpha beta p x"
    and rest: "\<not> beta \<le> max v x \<Longrightarrow> window_ok (max alpha (max v x)) beta (max (max v x) M) r \<and> max v x \<le> r"
    and ret: "beta \<le> max v x \<Longrightarrow> r = max v x"
  shows "window_ok alpha beta (max (max v p) M) r \<and> v \<le> r"
proof (cases "beta \<le> max v x")
  case True
  then have r: "r = max v x" by (rule ret)
  from True ab va have bx: "beta \<le> x" by (auto simp: le_max_iff_disj)
  have bp: "beta \<le> p"
  proof (rule ccontr)
    assume "\<not> beta \<le> p"
    then have "p < beta" by simp
    with child have "x \<le> alpha \<or> x = p" unfolding window_ok_def by (cases "alpha < p") auto
    with bx ab \<open>p < beta\<close> show False by auto
  qed
  have mb: "beta \<le> max (max v p) M" using bp by (simp add: le_max_iff_disj)
  have na: "\<not> max (max v p) M \<le> alpha"
  proof
    assume "max (max v p) M \<le> alpha"
    with mb have "beta \<le> alpha" by (rule order_trans)
    with ab show False by simp
  qed
  have nb: "\<not> max (max v p) M < beta" using mb by (simp only: not_less)
  have rb: "beta \<le> r" using r True by simp
  have vr: "v \<le> r" using r by simp
  from nb na rb vr show ?thesis unfolding window_ok_def by blast
next
  case False
  from rest [OF False] have IH: "window_ok (max alpha (max v x)) beta (max (max v x) M) r"
    and vr: "max v x \<le> r" by simp_all
  from False have xb: "x < beta" by (auto simp: le_max_iff_disj)
  have pb: "p < beta"
  proof (rule ccontr)
    assume "\<not> p < beta"
    then have "beta \<le> p" by simp
    with child have "beta \<le> x" unfolding window_ok_def by simp
    with xb show False by simp
  qed
  have vr': "v \<le> r" using vr by simp
  show ?thesis
  proof (cases "alpha < p")
    case True
    with child pb have xp: "x = p" unfolding window_ok_def by simp
    let ?m = "max (max v p) M"
    have mv: "max v p \<le> ?m" by (rule max.cobounded1)
    have c2: "beta \<le> ?m \<longrightarrow> beta \<le> r" using IH xp unfolding window_ok_def by simp
    have c1: "?m \<le> alpha \<longrightarrow> r \<le> alpha"
    proof
      assume b: "?m \<le> alpha"
      with mv have "max v p \<le> alpha" by (rule order_trans)
      then have "max alpha (max v p) = alpha" by (simp add: max_absorb1)
      with IH xp b show "r \<le> alpha" unfolding window_ok_def by simp
    qed
    have c3: "alpha < ?m \<and> ?m < beta \<longrightarrow> r = ?m"
    proof
      assume h: "alpha < ?m \<and> ?m < beta"
      show "r = ?m"
      proof (cases "max alpha (max v p) < ?m")
        case True
        with IH xp h show ?thesis unfolding window_ok_def by simp
      next
        case False
        then have le: "?m \<le> max alpha (max v p)" by (simp only: not_less)
        with IH xp have br: "r \<le> max alpha (max v p)" unfolding window_ok_def by simp
        from le have disj: "?m \<le> alpha \<or> ?m \<le> max v p" by (simp only: le_max_iff_disj)
        from h have am: "alpha < ?m" by (rule conjunct1)
        then have "\<not> ?m \<le> alpha" by (simp only: not_le)
        with disj have vm: "?m \<le> max v p" by blast
        from am vm have "alpha < max v p" by (rule less_le_trans)
        then have "max alpha (max v p) = max v p" by (simp add: max_absorb2)
        with br have "r \<le> max v p" by simp
        moreover from vr xp have "max v p \<le> r" by simp
        ultimately have "r = max v p" by simp
        moreover from vm mv have "?m = max v p" by (rule antisym)
        ultimately show ?thesis by simp
      qed
    qed
    from c1 c2 c3 vr' show ?thesis unfolding window_ok_def by simp
  next
    case False
    then have pa: "p \<le> alpha" by simp
    with child have xa: "x \<le> alpha" unfolding window_ok_def by simp
    have a': "max alpha (max v x) = alpha" using xa va by (simp add: max_absorb1)
    from IH a' have IH': "window_ok alpha beta (max (max v x) M) r" by simp
    have vx: "max v x \<le> alpha" and vp: "max v p \<le> alpha" using xa pa va by simp_all
    have c2: "beta \<le> max (max v p) M \<longrightarrow> beta \<le> r"
    proof
      assume "beta \<le> max (max v p) M"
      with vp ab have "beta \<le> M" by (auto simp: le_max_iff_disj)
      then have "beta \<le> max (max v x) M" by (simp add: le_max_iff_disj)
      with IH' show "beta \<le> r" unfolding window_ok_def by simp
    qed
    have c1: "max (max v p) M \<le> alpha \<longrightarrow> r \<le> alpha"
    proof
      assume "max (max v p) M \<le> alpha"
      then have "M \<le> alpha" by simp
      with vx have "max (max v x) M \<le> alpha" by simp
      with IH' show "r \<le> alpha" unfolding window_ok_def by simp
    qed
    have c3: "alpha < max (max v p) M \<and> max (max v p) M < beta \<longrightarrow> r = max (max v p) M"
    proof
      assume h: "alpha < max (max v p) M \<and> max (max v p) M < beta"
      with vp have Ma: "alpha < M" by (auto simp: less_max_iff_disj)
      from vp Ma have "max v p < M" by (rule le_less_trans)
      then have e1: "max (max v p) M = M" by (rule max_absorb2 [OF less_imp_le])
      from vx Ma have "max v x < M" by (rule le_less_trans)
      then have e2: "max (max v x) M = M" by (rule max_absorb2 [OF less_imp_le])
      from IH' h e1 e2 show "r = max (max v p) M" unfolding window_ok_def by simp
    qed
    from c1 c2 c3 vr' show ?thesis unfolding window_ok_def by simp
  qed
qed

lemma window_ok_refl: "window_ok alpha beta m m"
  by (simp add: window_ok_def)

lemma minimax_min_loop_min: "minimax_min_loop ms v = min v (minimax_min_loop ms PosInf)"
proof (induction ms arbitrary: v)
  case Nil show ?case by simp
next
  case (Cons x ms)
  obtain a c where x: "x = (a, c)" by (cases x)
  have "minimax_min_loop (x # ms) v = min (min v (minimax_max_value c)) (minimax_min_loop ms PosInf)"
    using Cons.IH [of "min v (minimax_max_value c)"] x by simp
  also have "\<dots> = min v (min (minimax_max_value c) (minimax_min_loop ms PosInf))"
    by (simp add: min.assoc)
  also have "min (minimax_max_value c) (minimax_min_loop ms PosInf) = minimax_min_loop (x # ms) PosInf"
    using Cons.IH [of "minimax_max_value c"] x by simp
  finally show ?case .
qed

lemma minimax_max_loop_max: "minimax_max_loop ms v = max v (minimax_max_loop ms NegInf)"
proof (induction ms arbitrary: v)
  case Nil show ?case by simp
next
  case (Cons x ms)
  obtain a c where x: "x = (a, c)" by (cases x)
  have "minimax_max_loop (x # ms) v = max (max v (minimax_min_value c)) (minimax_max_loop ms NegInf)"
    using Cons.IH [of "max v (minimax_min_value c)"] x by simp
  also have "\<dots> = max v (max (minimax_min_value c) (minimax_max_loop ms NegInf))"
    by (simp add: max.assoc)
  also have "max (minimax_min_value c) (minimax_max_loop ms NegInf) = minimax_max_loop (x # ms) NegInf"
    using Cons.IH [of "minimax_min_value c"] x by simp
  finally show ?case .
qed

lemma alpha_beta_window:
  fixes s s' :: "('a, 'k) GameState" and ms ms' :: "('a \<times> ('a, 'k) GameState) list"
  shows "alpha < beta \<Longrightarrow> window_ok alpha beta (minimax_min_value s) (min_value s alpha beta)"
  and "alpha < beta \<Longrightarrow> beta \<le> v \<Longrightarrow>
     window_ok alpha beta (minimax_min_loop ms v) (min_loop ms v alpha beta) \<and>
     min_loop ms v alpha beta \<le> v"
  and "alpha < beta \<Longrightarrow> window_ok alpha beta (minimax_max_value s') (max_value s' alpha beta)"
  and "alpha < beta \<Longrightarrow> v \<le> alpha \<Longrightarrow>
     window_ok alpha beta (minimax_max_loop ms' v) (max_loop ms' v alpha beta) \<and>
     v \<le> max_loop ms' v alpha beta"
proof (induction s alpha beta and ms v alpha beta and s' alpha beta and ms' v alpha beta
    rule: min_value_min_loop_max_value_max_loop.induct)
  case (1 t u p h ms alpha beta)
  then show ?case by (cases t) (simp_all add: window_ok_refl)
next
  case (2 v alpha beta)
  then show ?case by (simp add: window_ok_refl)
next
  case (3 a c ms v alpha beta)
  let ?x = "max_value c alpha beta"
  let ?p = "minimax_max_value c"
  let ?M = "minimax_min_loop ms PosInf"
  let ?r = "min_loop ((a, c) # ms) v alpha beta"
  have child: "window_ok alpha beta ?p ?x" using "3.IH"(1) "3.prems"(1) .
  have rest: "window_ok alpha (min beta (min v ?x)) (min (min v ?x) ?M) ?r \<and> ?r \<le> min v ?x"
    if n: "\<not> min v ?x \<le> alpha"
  proof -
    from n have "alpha < min v ?x" by (simp only: not_le)
    with "3.prems"(1) have w: "alpha < min beta (min v ?x)" by (simp only: min_less_iff_conj simp_thms)
    have b: "min beta (min v ?x) \<le> min v ?x" by (rule min.cobounded2)
    from "3.IH"(2) [OF refl n w b] n
    show ?thesis by (simp add: Let_def minimax_min_loop_min [of ms "min v ?x"])
  qed
  have ret: "?r = min v ?x" if "min v ?x \<le> alpha"
    using that by (simp add: Let_def)
  have "window_ok alpha beta (min (min v ?p) ?M) ?r \<and> ?r \<le> v"
    using "3.prems" child rest ret by (rule min_step)
  then show ?case by (simp add: minimax_min_loop_min [of ms "min v ?p"])
next
  case (4 t u p h ms alpha beta)
  then show ?case by (cases t) (simp_all add: window_ok_refl)
next
  case (5 v alpha beta)
  then show ?case by (simp add: window_ok_refl)
next
  case (6 a c ms v alpha beta)
  let ?x = "min_value c alpha beta"
  let ?p = "minimax_min_value c"
  let ?M = "minimax_max_loop ms NegInf"
  let ?r = "max_loop ((a, c) # ms) v alpha beta"
  have child: "window_ok alpha beta ?p ?x" using "6.IH"(1) "6.prems"(1) .
  have rest: "window_ok (max alpha (max v ?x)) beta (max (max v ?x) ?M) ?r \<and> max v ?x \<le> ?r"
    if n: "\<not> beta \<le> max v ?x"
  proof -
    from n have "max v ?x < beta" by (simp only: not_le)
    with "6.prems"(1) have w: "max alpha (max v ?x) < beta" by (simp only: max_less_iff_conj simp_thms)
    have b: "max v ?x \<le> max alpha (max v ?x)" by (rule max.cobounded2)
    from "6.IH"(2) [OF refl n w b] n
    show ?thesis by (simp add: Let_def minimax_max_loop_max [of ms "max v ?x"])
  qed
  have ret: "?r = max v ?x" if "beta \<le> max v ?x"
    using that by (simp add: Let_def)
  have "window_ok alpha beta (max (max v ?p) ?M) ?r \<and> v \<le> ?r"
    using "6.prems" child rest ret by (rule max_step)
  then show ?case by (simp add: minimax_max_loop_max [of ms "max v ?p"])
qed

lemma search_loop_minimax:
  "search_loop ms alpha PosInf alpha best_move = minimax_loop ms alpha best_move"
proof (induction ms arbitrary: alpha best_move)
  case Nil
  show ?case by simp
next
  case (Cons x ms)
  obtain a c where x: "x = (a, c)" by (cases x)
  let ?v = "min_value c alpha PosInf"
  let ?m = "minimax_min_value c"
  show ?case
  proof (cases "alpha < ?m")
    case True
    then have lt: "alpha < PosInf" using PosInf_greatest [of ?m] by (rule less_le_trans)
    from alpha_beta_window(1) [OF lt, of c] have w: "window_ok alpha PosInf ?m ?v" .
    have vm: "?v = ?m"
    proof (cases "?m < PosInf")
      case True
      with w \<open>alpha < ?m\<close> show ?thesis by (simp add: window_ok_def)
    next
      case False
      then have "?m = PosInf" by (cases ?m) simp_all
      with w have "PosInf \<le> ?v" by (simp add: window_ok_def)
      then have "?v = PosInf" by (cases ?v) simp_all
      with \<open>?m = PosInf\<close> show ?thesis by simp
    qed
    with True have "max alpha ?v = ?m" by (simp add: max_absorb2)
    with True vm x Cons.IH [of ?m "Some a"] show ?thesis by (simp add: Let_def)
  next
    case False
    then have ma: "?m \<le> alpha" by simp
    have va: "?v \<le> alpha"
    proof (cases "alpha < PosInf")
      case True
      from alpha_beta_window(1) [OF True, of c] ma show ?thesis by (simp add: window_ok_def)
    next
      case False
      then have "alpha = PosInf" by (cases alpha) simp_all
      then show ?thesis by simp
    qed
    then have e: "max alpha ?v = alpha" by (simp add: max_absorb1)
    from va have nv: "\<not> alpha < ?v" by (simp only: not_less)
    from False nv e x Cons.IH [of alpha best_move] show ?thesis by (simp add: Let_def)
  qed
qed

text \<open>
  Claim C1. On every game state the action returned by \<^verbatim>\<open>alpha_beta_search\<close> is the
  action chosen by plain, unpruned minimax with the same first-action-wins tie-breaking
  over the same ordering of the actions: pruning never changes the selected action.
  The equality holds for every state, also for one without legal actions, where both
  return \<^verbatim>\<open>None\<close>.
\<close>

theorem alpha_beta_search_eq_minimax:
  "alpha_beta_search gameState = minimax_decision gameState"
  by (simp add: alpha_beta_search_def minimax_decision_def search_loop_minimax)

section \<open>The search returns a legal action\<close>

lemma neq_NegInf_iff: "(x \<noteq> NegInf) = (NegInf < x)"
  by (cases x) simp_all

lemma max_loop_ge: "v \<le> max_loop ms v alpha beta"
proof (induction ms arbitrary: v alpha)
  case Nil
  show ?case by simp
next
  case (Cons x ms)
  obtain a c where x: "x = (a, c)" by (cases x)
  let ?v' = "max v (min_value c alpha beta)"
  have "v \<le> ?v'" by (rule max.cobounded1)
  moreover have "?v' \<le> max_loop ms ?v' (max alpha ?v') beta" by (rule Cons.IH)
  ultimately show ?case using x by (auto simp: Let_def intro: order_trans)
qed

lemma values_above_NegInf:
  fixes s s' :: "('a, 'k) GameState" and ms ms' :: "('a \<times> ('a, 'k) GameState) list"
  shows "playable s \<Longrightarrow> no_neg_inf s \<Longrightarrow> NegInf < min_value s alpha beta"
  and "playable_moves ms \<Longrightarrow> no_neg_inf_moves ms \<Longrightarrow> NegInf < v \<Longrightarrow>
       NegInf < min_loop ms v alpha beta"
  and "playable s' \<Longrightarrow> no_neg_inf s' \<Longrightarrow> NegInf < max_value s' alpha beta"
  and "playable_moves ms' \<Longrightarrow> no_neg_inf_moves ms' \<Longrightarrow> NegInf < v \<or> ms' \<noteq> [] \<Longrightarrow>
       NegInf < max_loop ms' v alpha beta"
proof (induction s alpha beta and ms v alpha beta and s' alpha beta and ms' v alpha beta
    rule: min_value_min_loop_max_value_max_loop.induct)
  case (1 t u p h ms alpha beta)
  then show ?case by (cases t) (simp_all add: neq_NegInf_iff)
next
  case (2 v alpha beta)
  then show ?case by simp
next
  case (3 a c ms v alpha beta)
  let ?v' = "min v (max_value c alpha beta)"
  from 3 have "NegInf < max_value c alpha beta" by simp
  with "3.prems"(3) have v': "NegInf < ?v'" by (simp only: min_less_iff_conj simp_thms)
  show ?case
  proof (cases "?v' \<le> alpha")
    case True
    with v' show ?thesis by (simp add: Let_def)
  next
    case False
    from "3.IH"(2) [OF refl False] "3.prems" v' have "NegInf < min_loop ms ?v' alpha (min beta ?v')"
      by simp
    with False show ?thesis by (simp add: Let_def)
  qed
next
  case (4 t u p h ms alpha beta)
  then show ?case by (cases t) (simp_all add: neq_NegInf_iff)
next
  case (5 v alpha beta)
  then show ?case by simp
next
  case (6 a c ms v alpha beta)
  let ?v' = "max v (min_value c alpha beta)"
  from 6 have "NegInf < min_value c alpha beta" by simp
  then have v': "NegInf < ?v'" by (simp add: less_max_iff_disj)
  show ?case
  proof (cases "beta \<le> ?v'")
    case True
    with v' show ?thesis by (simp add: Let_def)
  next
    case False
    from "6.IH"(2) [OF refl False] "6.prems" v' have "NegInf < max_loop ms ?v' (max alpha ?v') beta"
      by simp
    with False show ?thesis by (simp add: Let_def)
  qed
qed

lemma search_loop_incumbent:
  "\<exists>a \<in> insert b (fst ` set ms). search_loop ms alpha beta best_score (Some b) = Some a"
proof (induction ms arbitrary: alpha best_score b)
  case Nil
  show ?case by simp
next
  case (Cons x ms)
  obtain a c where x: "x = (a, c)" by (cases x)
  let ?v = "min_value c alpha beta"
  show ?case
  proof (cases "best_score < ?v")
    case True
    from Cons.IH [where alpha = "max alpha ?v" and best_score = ?v and b = a] True x show ?thesis by (auto simp: Let_def)
  next
    case False
    from Cons.IH [where alpha = "max alpha ?v" and best_score = best_score and b = b] False x show ?thesis by (auto simp: Let_def)
  qed
qed

text \<open>
  Where the search does return a legal action: at a non-terminal state below which every
  non-terminal state has a legal action and no terminal state has utility
  \<^verbatim>\<open>float("-inf")\<close> for player 0.
\<close>

lemma alpha_beta_search_legal:
  assumes "\<not> terminal_test gameState" and "playable gameState" and "no_neg_inf gameState"
  shows "\<exists>a \<in> set (actions gameState). alpha_beta_search gameState = Some a"
proof (cases gameState)
  case (GameState t u p h ms)
  with assms have nt: "\<not> t" and ms: "ms \<noteq> []" and pl: "playable_moves ms"
    and nn: "no_neg_inf_moves ms"
    by simp_all
  from ms obtain a c rest where cons: "ms = (a, c) # rest"
    by (cases ms) auto
  let ?v = "min_value c NegInf PosInf"
  from pl nn cons have "NegInf < ?v"
    by (simp add: values_above_NegInf(1))
  then have "search_loop ms NegInf PosInf NegInf None = search_loop rest ?v PosInf ?v (Some a)"
    using cons by (simp add: Let_def)
  moreover from search_loop_incumbent [of a rest ?v PosInf ?v]
  obtain b where "b \<in> insert a (fst ` set rest)"
    and "search_loop rest ?v PosInf ?v (Some a) = Some b"
    by blast
  ultimately show ?thesis
    using GameState cons by (auto simp: alpha_beta_search_def actions_def)
qed

lemma alpha_beta_search_legal_example:
  "\<not> terminal_test small_game \<and> playable small_game \<and> no_neg_inf small_game \<and>
   (\<exists>a \<in> set (actions small_game). alpha_beta_search small_game = Some a)"
proof -
  have h1: "\<not> terminal_test small_game"
    by (simp add: small_game_def)
  have h2: "playable small_game"
    by (simp add: small_game_def reply_state_def won_leaf_def lost_leaf_def)
  have h3: "no_neg_inf small_game"
    by (simp add: small_game_def reply_state_def won_leaf_def lost_leaf_def)
  from h1 h2 h3 alpha_beta_search_legal [OF h1 h2 h3] show ?thesis
    by simp
qed

text \<open>
  Claim C2. The claim asks for a legal action from every non-terminal state with a legal
  action, as the docstring of \<^verbatim>\<open>alpha_beta_search\<close> does. The code does not deliver it at
  \<open>doomed_state\<close>: the state is not terminal and has the legal action (0, 0), whose value
  \<^verbatim>\<open>float("-inf")\<close> is not greater than the initial \<^verbatim>\<open>best_score\<close>, so \<^verbatim>\<open>best_move\<close>
  is still \<^verbatim>\<open>None\<close> when the loop ends, and \<^verbatim>\<open>None\<close> is returned.
\<close>

theorem alpha_beta_search_returns_none:
  "\<not> terminal_test doomed_state \<and> actions doomed_state = [(0, 0)] \<and>
   alpha_beta_search doomed_state = None"
  by (simp add: doomed_state_def actions_def alpha_beta_search_def)

section \<open>The perspective of the evaluators\<close>

text \<open>
  Claim C3, as amended. At a terminal state both evaluators return the utility of that
  state for player 0, whatever the window and wherever in the tree the state is: the
  perspective is the constant 0 of \<^verbatim>\<open>gameState.utility(0)\<close>, not the player to move at the
  root of the search.
\<close>

theorem terminal_utility_player_0:
  "terminal_test gameState \<Longrightarrow>
   min_value gameState alpha beta = utility gameState 0 \<and>
   max_value gameState alpha beta = utility gameState 0"
  by (cases gameState) simp

theorem terminal_utility_player_0_witness:
  "terminal_test won_leaf \<and> min_value won_leaf NegInf PosInf = Fin 1 \<and>
   max_value won_leaf NegInf PosInf = Fin 1"
  using terminal_utility_player_0 [of won_leaf NegInf PosInf]
  by (simp add: won_leaf_def)

text \<open>
  When player 1 is to move at the root the value returned at a terminal state is not the
  utility for the searching player: the only move of \<open>second_player_game\<close> leads to the
  terminal state \<open>lost_leaf\<close>, which is worth +1 to player 1, and both evaluators
  return -1 there.
\<close>

theorem terminal_utility_root_player_counterexample:
  "parity second_player_game = 1 \<and>
   moves second_player_game = [((0, 0), lost_leaf)] \<and>
   terminal_test lost_leaf \<and>
   min_value lost_leaf NegInf PosInf = Fin (- 1) \<and>
   max_value lost_leaf NegInf PosInf = Fin (- 1) \<and>
   utility lost_leaf (parity second_player_game) = Fin 1"
  by (simp add: second_player_game_def lost_leaf_def)

section \<open>The loops of the evaluators\<close>







lemma min_loop_calls_value: "fst (min_loop_calls ms v alpha beta) = min_loop ms v alpha beta"
  by (induction ms v alpha beta rule: min_loop_calls.induct)
     (auto simp: Let_def split: prod.splits)

lemma max_loop_calls_value: "fst (max_loop_calls ms v alpha beta) = max_loop ms v alpha beta"
  by (induction ms v alpha beta rule: max_loop_calls.induct)
     (auto simp: Let_def split: prod.splits)











section \<open>Tie-breaking at the root\<close>

lemma search_loop_no_better:
  "\<forall>v \<in> set (root_evals ms alpha beta). v \<le> best_score \<Longrightarrow>
   search_loop ms alpha beta best_score best_move = best_move"
proof (induction ms arbitrary: alpha)
  case Nil
  show ?case by simp
next
  case (Cons x ms)
  obtain a c where x: "x = (a, c)" by (cases x)
  let ?v = "min_value c alpha beta"
  from Cons.prems x have le: "?v \<le> best_score"
    and rest: "\<forall>v \<in> set (root_evals ms (max alpha ?v) beta). v \<le> best_score"
    by (simp_all add: Let_def)
  from le have "\<not> best_score < ?v" by (simp only: not_less)
  with Cons.IH [OF rest] x show ?case by (simp add: Let_def)
qed

lemma search_loop_first_max:
  "i < length ms \<Longrightarrow> best_score < root_evals ms alpha beta ! i \<Longrightarrow>
   \<forall>v \<in> set (take i (root_evals ms alpha beta)). v < root_evals ms alpha beta ! i \<Longrightarrow>
   \<forall>v \<in> set (root_evals ms alpha beta). v \<le> root_evals ms alpha beta ! i \<Longrightarrow>
   search_loop ms alpha beta best_score best_move = Some (fst (ms ! i))"
proof (induction ms arbitrary: i alpha best_score best_move)
  case Nil
  then show ?case by simp
next
  case (Cons x ms)
  obtain a c where x: "x = (a, c)" by (cases x)
  let ?v = "min_value c alpha beta"
  let ?rest = "root_evals ms (max alpha ?v) beta"
  have evals: "root_evals (x # ms) alpha beta = ?v # ?rest"
    using x by (simp add: Let_def)
  show ?case
  proof (cases i)
    case 0
    with Cons.prems(2) evals have gt: "best_score < ?v" by simp
    from Cons.prems(4) evals 0 have "\<forall>v \<in> set ?rest. v \<le> ?v" by simp
    then have "search_loop ms (max alpha ?v) beta ?v (Some a) = Some a"
      by (rule search_loop_no_better)
    with gt x 0 show ?thesis by (simp add: Let_def)
  next
    case (Suc j)
    let ?w = "?rest ! j"
    from Cons.prems(1) Suc have j: "j < length ms" by simp
    from Cons.prems(2) evals Suc have bw: "best_score < ?w" by simp
    from Cons.prems(3) evals Suc have vw: "?v < ?w"
      and before: "\<forall>v \<in> set (take j ?rest). v < ?w" by simp_all
    from Cons.prems(4) evals Suc have all: "\<forall>v \<in> set ?rest. v \<le> ?w" by simp
    show ?thesis
    proof (cases "best_score < ?v")
      case True
      from Cons.IH [OF j vw before all] True x Suc show ?thesis by (simp add: Let_def)
    next
      case False
      from Cons.IH [OF j bw before all] False x Suc show ?thesis by (simp add: Let_def)
    qed
  qed
qed

text \<open>
  Claim C5. At the root the search keeps the first action, in the order of \<^verbatim>\<open>actions()\<close>,
  whose evaluated value is the maximum: if the value of action \<open>i\<close> is greater than the
  values of all earlier actions and greater than \<^verbatim>\<open>float("-inf")\<close>, the initial
  \<^verbatim>\<open>best_score\<close>, and no later action has a greater value, then action \<open>i\<close> is returned,
  also when later values tie with it (the comparison is the strict \<^verbatim>\<open>>\<close>).
\<close>

theorem first_maximal_action_is_kept:
  assumes "i < length (actions gameState)"
    and "NegInf < root_evals (moves gameState) NegInf PosInf ! i"
    and "\<forall>v \<in> set (take i (root_evals (moves gameState) NegInf PosInf)).
           v < root_evals (moves gameState) NegInf PosInf ! i"
    and "\<forall>v \<in> set (root_evals (moves gameState) NegInf PosInf).
           v \<le> root_evals (moves gameState) NegInf PosInf ! i"
  shows "alpha_beta_search gameState = Some (actions gameState ! i)"
proof -
  from assms(1) have i: "i < length (moves gameState)"
    by (simp add: actions_def)
  from search_loop_first_max [OF i assms(2) assms(3) assms(4)] i show ?thesis
    by (simp add: alpha_beta_search_def actions_def)
qed

theorem first_maximal_action_is_kept_witness:
  "root_evals (moves small_game) NegInf PosInf = [Fin (- 1), Fin 1, Fin 1] \<and>
   actions small_game = [(0, 0), (1, 0), (0, 1)] \<and>
   alpha_beta_search small_game = Some (1, 0)"
proof -
  have ev: "root_evals (moves small_game) NegInf PosInf = [Fin (- 1), Fin 1, Fin 1]"
    by (simp add: small_game_def reply_state_def won_leaf_def lost_leaf_def Let_def)
  have ac: "actions small_game = [(0, 0), (1, 0), (0, 1)]"
    by (simp add: small_game_def actions_def)
  have h1: "1 < length (actions small_game)"
    by (simp add: ac)
  have h2: "NegInf < root_evals (moves small_game) NegInf PosInf ! 1"
    by (simp add: ev)
  have h3: "\<forall>v \<in> set (take 1 (root_evals (moves small_game) NegInf PosInf)).
      v < root_evals (moves small_game) NegInf PosInf ! 1"
    by (simp add: ev)
  have h4: "\<forall>v \<in> set (root_evals (moves small_game) NegInf PosInf).
      v \<le> root_evals (moves small_game) NegInf PosInf ! 1"
    by (simp add: ev)
  from first_maximal_action_is_kept [OF h1 h2 h3 h4] ev ac show ?thesis
    by simp
qed

section \<open>Rollouts\<close>

declare build_tree.simps [simp del]

lemma playable_child: "playable_moves ms \<Longrightarrow> x \<in> set ms \<Longrightarrow> playable (snd x)"
  by (induction ms) auto

lemma playable_moves_of: "playable state \<Longrightarrow> \<not> terminal_test state \<Longrightarrow>
  moves state \<noteq> [] \<and> playable_moves (moves state)"
  by (cases state) simp

lemma choice_total: "xs \<noteq> [] \<Longrightarrow> \<exists>x. choice tape n xs = Inr (x, Suc n) \<and> x \<in> set xs"
  by (simp add: choice_def)

lemma sim_loop_total:
  "playable state \<Longrightarrow> \<exists>final n'. sim_loop tape n state = Inr (final, n') \<and> terminal_test final"
proof (induction tape n state rule: sim_loop.induct)
  case (1 tape n state)
  show ?case
  proof (cases "terminal_test state")
    case True
    then show ?thesis by simp
  next
    case False
    from playable_moves_of [OF "1.prems" False]
    have ne: "moves state \<noteq> []" and pm: "playable_moves (moves state)" by simp_all
    from choice_total [OF ne] obtain x where ch: "choice tape n (moves state) = Inr (x, Suc n)"
      and mem: "x \<in> set (moves state)" by blast
    obtain a c where x: "x = (a, c)" by (cases x)
    from playable_child [OF pm mem] x have "playable c" by simp
    from "1.IH" [OF False ch refl x [symmetric] this]
    obtain final n' where "sim_loop tape (Suc n) c = Inr (final, n')" "terminal_test final"
      by blast
    with False ch x show ?thesis by simp
  qed
qed

text \<open>
  Claim C10. In a game where every non-terminal state has a legal action, every rollout
  ends at a terminal state, and \<^verbatim>\<open>simulate\<close> scores it -1 exactly when the utility of
  that state for the player to move at the start of the rollout is negative; a draw
  (utility 0 for that player) is scored +1, as a win is.
\<close>

theorem simulate_scores_draw_as_win:
  "playable state \<Longrightarrow>
   \<exists>final n'. sim_loop tape n state = Inr (final, n') \<and> terminal_test final \<and>
     simulate tape n state =
       Inr (if utility final (parity state) < Fin 0 then - 1 else 1, n') \<and>
     (utility final (parity state) = Fin 0 \<longrightarrow> simulate tape n state = Inr (1, n'))"
proof -
  assume "playable state"
  from sim_loop_total [OF this, of tape n]
  obtain final n' where s: "sim_loop tape n state = Inr (final, n')" and t: "terminal_test final"
    by blast
  then show ?thesis
    by (auto simp: simulate_def)
qed

theorem simulate_scores_draw_as_win_witness:
  "playable drawn_game \<and> sim_loop zero_tape 0 drawn_game = Inr (drawn_leaf, 1) \<and>
   utility drawn_leaf (parity drawn_game) = Fin 0 \<and>
   simulate zero_tape 0 drawn_game = Inr (1, 1)"
proof -
  have h: "playable drawn_game"
    by (simp add: drawn_game_def drawn_leaf_def)
  have l: "sim_loop zero_tape 0 drawn_game = Inr (drawn_leaf, 1)"
    by (simp add: drawn_game_def drawn_leaf_def choice_def zero_tape_def)
  have u: "utility drawn_leaf (parity drawn_game) = Fin 0"
    by (simp add: drawn_leaf_def)
  from simulate_scores_draw_as_win [OF h, of zero_tape 0] h l u show ?thesis
    by auto
qed

section \<open>Rewards recorded in the book\<close>

lemma map_of_counter_add:
  "map_of (counter_add cs a r) a = Some ((case map_of cs a of None \<Rightarrow> 0 | Some m \<Rightarrow> m) + r)"
  by (induction cs) auto

lemma tally_book_add: "tally (book_add book k a r) k a = tally book k a + r"
  by (induction book) (auto simp: tally_def map_of_counter_add)

lemma build_tree_rollout:
  "depth \<le> 0 \<or> terminal_test state \<Longrightarrow> sim_loop tape n state = Inr (final, n') \<Longrightarrow>
   build_tree tape n state book depth =
     Inr (- (if utility final (parity state) < Fin 0 then - 1 else 1), book, n')"
  by (subst build_tree.simps) (auto simp: simulate_def)

lemma build_tree_step:
  "0 < depth \<Longrightarrow> \<not> terminal_test state \<Longrightarrow>
   choice tape n (moves state) = Inr ((action, child), n1) \<Longrightarrow>
   build_tree tape n1 child book (depth - 1) = Inr (reward, book1, n2) \<Longrightarrow>
   build_tree tape n state book depth =
     Inr (- reward, book_add book1 (hashable state) action reward, n2)"
  by (subst build_tree.simps) simp

text \<open>
  Claim C8, as amended. Let the rollout start at \<open>child\<close>, reached from \<open>state\<close> by \<open>action\<close>,
  and let \<open>r\<close> be the rollout's score for the player to move at \<open>child\<close>: +1 unless
  that player's final utility is negative, then -1. The call at the rollout's start records
  nothing and returns \<open>- r\<close>. The pair \<open>(state, action)\<close>, one ply above the start of the
  rollout, accumulates \<open>- r\<close>, and the call at \<open>state\<close> returns \<open>r\<close>. The pair
  \<open>(parent, action0)\<close> one ply higher accumulates \<open>r\<close>, and the call at \<open>parent\<close> returns
  \<open>- r\<close>: the reward changes sign at every level.
\<close>

theorem build_tree_negamax:
  assumes "\<not> terminal_test parent" and "\<not> terminal_test state" and "0 < depth"
    and "choice tape n0 (moves parent) = Inr ((action0, state), n)"
    and "choice tape n (moves state) = Inr ((action, child), n1)"
    and "depth \<le> 1 \<or> terminal_test child"
    and "sim_loop tape n1 child = Inr (final, n2)"
    and "r = (if utility final (parity child) < Fin 0 then - 1 else 1)"
  shows "build_tree tape n1 child book (depth - 1) = Inr (- r, book, n2) \<and>
    build_tree tape n state book depth =
      Inr (r, book_add book (hashable state) action (- r), n2) \<and>
    tally (book_add book (hashable state) action (- r)) (hashable state) action =
      tally book (hashable state) action - r \<and>
    build_tree tape n0 parent book (depth + 1) =
      Inr (- r, book_add (book_add book (hashable state) action (- r)) (hashable parent) action0 r,
           n2)"
proof -
  from assms(6) have "depth - 1 \<le> 0 \<or> terminal_test child"
    by auto
  from build_tree_rollout [OF this assms(7)] assms(8)
  have c: "build_tree tape n1 child book (depth - 1) = Inr (- r, book, n2)"
    by simp
  from build_tree_step [OF assms(3) assms(2) assms(5) c]
  have s: "build_tree tape n state book depth =
      Inr (r, book_add book (hashable state) action (- r), n2)"
    by simp
  have p: "build_tree tape n0 parent book (depth + 1) =
      Inr (- r, book_add (book_add book (hashable state) action (- r)) (hashable parent) action0 r,
           n2)"
    using assms(1,3,4) s by (subst build_tree.simps) simp
  from c s p show ?thesis
    by (simp add: tally_book_add)
qed

theorem build_tree_negamax_witness:
  "\<not> terminal_test chain_game \<and> \<not> terminal_test chain_reply \<and>
   choice zero_tape 0 (moves chain_game) = Inr (((0, 0), chain_reply), 1) \<and>
   choice zero_tape 1 (moves chain_reply) = Inr (((1, 0), chain_rollout), 2) \<and>
   sim_loop zero_tape 2 chain_rollout = Inr (won_leaf, 3) \<and>
   build_tree zero_tape 2 chain_rollout [] 0 = Inr (- 1, [], 3) \<and>
   build_tree zero_tape 1 chain_reply [] 1 = Inr (1, [(2, [((1, 0), - 1)])], 3) \<and>
   build_tree zero_tape 0 chain_game [] 2 =
     Inr (- 1, [(2, [((1, 0), - 1)]), (1, [((0, 0), 1)])], 3)"
proof -
  have h1: "\<not> terminal_test chain_game"
    by (simp add: chain_game_def)
  have h2: "\<not> terminal_test chain_reply"
    by (simp add: chain_reply_def)
  have h3: "(0::int) < 1"
    by simp
  have h4: "choice zero_tape 0 (moves chain_game) = Inr (((0, 0), chain_reply), 1)"
    by (simp add: chain_game_def choice_def zero_tape_def)
  have h5: "choice zero_tape 1 (moves chain_reply) = Inr (((1, 0), chain_rollout), 2)"
    by (simp add: chain_reply_def choice_def zero_tape_def)
  have h6: "(1::int) \<le> 1 \<or> terminal_test chain_rollout"
    by simp
  have h7: "sim_loop zero_tape 2 chain_rollout = Inr (won_leaf, 3)"
    by (simp add: chain_rollout_def won_leaf_def choice_def zero_tape_def)
  have h8: "(1::int) = (if utility won_leaf (parity chain_rollout) < Fin 0 then - 1 else 1)"
    by (simp add: won_leaf_def chain_rollout_def)
  have k: "hashable chain_reply = 2" "hashable chain_game = 1"
    by (simp_all add: chain_reply_def chain_game_def)
  from build_tree_negamax [OF h1 h2 h3 h4 h5 h6 h7 h8, of "[]"] h1 h2 h4 h5 h7 k
  show ?thesis
    by simp
qed

text \<open>
  In \<open>chain_game\<close> the rollout starts at \<open>chain_rollout\<close>, where player 0 is to move and
  wins the simulated continuation (utility +1 at \<open>won_leaf\<close>). No pair is recorded under
  the key of \<open>chain_rollout\<close>; the pair recorded for the move into it, at \<open>chain_reply\<close>,
  accumulates -1, and the pair at \<open>chain_game\<close> accumulates +1.
\<close>

theorem rollout_start_sign_counterexample:
  "sim_loop zero_tape 2 chain_rollout = Inr (won_leaf, 3) \<and>
   Fin 0 < utility won_leaf (parity chain_rollout) \<and>
   simulate zero_tape 2 chain_rollout = Inr (1, 3) \<and>
   ((1, 0), chain_rollout) \<in> set (moves chain_reply) \<and>
   build_tree zero_tape 0 chain_game [] 2 =
     Inr (- 1, [(hashable chain_reply, [((1, 0), - 1)]), (hashable chain_game, [((0, 0), 1)])], 3) \<and>
   hashable chain_rollout \<noteq> hashable chain_reply \<and>
   hashable chain_rollout \<noteq> hashable chain_game"
proof -
  have l: "sim_loop zero_tape 2 chain_rollout = Inr (won_leaf, 3)"
    by (simp add: chain_rollout_def won_leaf_def choice_def zero_tape_def)
  have s: "simulate zero_tape 2 chain_rollout = Inr (1, 3)"
    unfolding simulate_def l by (simp add: won_leaf_def chain_rollout_def)
  have u: "\<not> utility won_leaf (parity chain_rollout) < Fin 0"
    by (simp add: won_leaf_def chain_rollout_def)
  have r: "build_tree zero_tape 2 chain_rollout [] 0 = Inr (- 1, [], 3)"
    using build_tree_rollout [of 0 chain_rollout zero_tape 2 won_leaf 3 "[]"] l u by simp
  have c1: "choice zero_tape 1 (moves chain_reply) = Inr (((1, 0), chain_rollout), 2)"
    by (simp add: chain_reply_def choice_def zero_tape_def)
  have c0: "choice zero_tape 0 (moves chain_game) = Inr (((0, 0), chain_reply), 1)"
    by (simp add: chain_game_def choice_def zero_tape_def)
  have t1: "\<not> terminal_test chain_reply" "hashable chain_reply = 2"
    by (simp_all add: chain_reply_def)
  have t0: "\<not> terminal_test chain_game" "hashable chain_game = 1"
    by (simp_all add: chain_game_def)
  have p: "build_tree zero_tape 1 chain_reply [] 1 = Inr (1, [(2, [((1, 0), - 1)])], 3)"
    using build_tree_step [of 1 chain_reply zero_tape 1 "(1, 0)" chain_rollout 2 "[]" "- 1" "[]" 3]
      t1 c1 r by simp
  have g: "build_tree zero_tape 0 chain_game [] 2 =
      Inr (- 1, [(2, [((1, 0), - 1)]), (1, [((0, 0), 1)])], 3)"
    using build_tree_step [of 2 chain_game zero_tape 0 "(0, 0)" chain_reply 1 "[]" 1
        "[(2, [((1, 0), - 1)])]" 3]
      t0 c0 p by simp
  show ?thesis
    using l s g t1 t0 by (simp add: won_leaf_def chain_rollout_def chain_reply_def)
qed

section \<open>The table built from the book\<close>

lemma counter_add_keys: "fst ` set (counter_add cs a r) = insert a (fst ` set cs)"
  by (induction cs) (force split: if_splits)+

lemma counter_add_not_Nil: "counter_add cs a r \<noteq> []"
  by (cases cs) (auto split: if_splits)

lemma book_add_keys:
  "map fst (book_add book k a r) =
     (if k \<in> set (map fst book) then map fst book else map fst book @ [k])"
proof (induction book)
  case Nil
  show ?case by simp
next
  case (Cons x book)
  obtain j cs where x: "x = (j, cs)" by (cases x)
  show ?case
  proof (cases "j = k")
    case True
    with x show ?thesis by simp
  next
    case False
    with x Cons.IH show ?thesis by simp
  qed
qed

lemma book_add_entry:
  "(j, cs') \<in> set (book_add book k a r) \<Longrightarrow>
   (j, cs') \<in> set book \<or>
   (j = k \<and> (\<exists>cs. ((k, cs) \<in> set book \<or> cs = []) \<and> cs' = counter_add cs a r))"
  by (induction book) (auto split: if_splits)

lemma book_rec_iff:
  "book_rec pairs book \<longleftrightarrow>
     distinct (map fst book) \<and>
     set (map fst book) = (\<lambda>p. hashable (fst p)) ` pairs \<and>
     (\<forall>e \<in> set book. snd e \<noteq> [] \<and>
        (\<forall>b \<in> fst ` set (snd e). \<exists>s. (s, b) \<in> pairs \<and> hashable s = fst e))"
  unfolding book_rec_def by (simp add: case_prod_beta)

lemma book_rec_empty: "book_rec {} []"
  by (simp add: book_rec_def)

lemma book_rec_add:
  assumes "book_rec pairs book"
  shows "book_rec (insert (s, a) pairs) (book_add book (hashable s) a r)"
proof -
  from assms have d: "distinct (map fst book)"
    and keys: "set (map fst book) = (\<lambda>p. hashable (fst p)) ` pairs"
    and ent: "\<forall>e \<in> set book. snd e \<noteq> [] \<and>
        (\<forall>b \<in> fst ` set (snd e). \<exists>s. (s, b) \<in> pairs \<and> hashable s = fst e)"
    by (simp_all add: book_rec_iff)
  let ?book = "book_add book (hashable s) a r"
  have d': "distinct (map fst ?book)"
    using d by (simp add: book_add_keys)
  have keys': "set (map fst ?book) = (\<lambda>p. hashable (fst p)) ` insert (s, a) pairs"
    using keys by (simp add: book_add_keys insert_absorb)
  have ent': "snd e \<noteq> [] \<and>
      (\<forall>b \<in> fst ` set (snd e). \<exists>t. (t, b) \<in> insert (s, a) pairs \<and> hashable t = fst e)"
    if mem: "e \<in> set ?book" for e
  proof -
    obtain j cs' where e: "e = (j, cs')" by (cases e)
    from mem e have "(j, cs') \<in> set ?book" by simp
    from book_add_entry [OF this]
    have "snd (j, cs') \<noteq> [] \<and>
      (\<forall>b \<in> fst ` set (snd (j, cs')). \<exists>t. (t, b) \<in> insert (s, a) pairs \<and> hashable t = fst (j, cs'))"
    proof
      assume m: "(j, cs') \<in> set book"
      from ent m have "snd (j, cs') \<noteq> [] \<and>
        (\<forall>b \<in> fst ` set (snd (j, cs')). \<exists>s. (s, b) \<in> pairs \<and> hashable s = fst (j, cs'))"
        by (rule bspec)
      then show ?thesis by blast
    next
      assume "j = hashable s \<and>
        (\<exists>cs. ((hashable s, cs) \<in> set book \<or> cs = []) \<and> cs' = counter_add cs a r)"
      then obtain cs where j: "j = hashable s" and cs: "(hashable s, cs) \<in> set book \<or> cs = []"
        and cs': "cs' = counter_add cs a r" by blast
      have old: "\<forall>b \<in> fst ` set cs. \<exists>t. (t, b) \<in> pairs \<and> hashable t = hashable s"
      proof (cases "cs = []")
        case True
        then show ?thesis by simp
      next
        case False
        with cs have "(hashable s, cs) \<in> set book" by simp
        with ent have "snd (hashable s, cs) \<noteq> [] \<and>
          (\<forall>b \<in> fst ` set (snd (hashable s, cs)).
              \<exists>t. (t, b) \<in> pairs \<and> hashable t = fst (hashable s, cs))"
          by (rule bspec)
        then show ?thesis by simp
      qed
      have "\<exists>t. (t, b) \<in> insert (s, a) pairs \<and> hashable t = hashable s"
        if "b \<in> insert a (fst ` set cs)" for b
      proof (cases "b = a")
        case True
        then show ?thesis by blast
      next
        case False
        with that have "b \<in> fst ` set cs" by simp
        with old show ?thesis by blast
      qed
      then show ?thesis
        unfolding cs' j by (simp add: counter_add_keys counter_add_not_Nil)
    qed
    with e show ?thesis by simp
  qed
  from d' keys' ent' show ?thesis
    unfolding book_rec_iff by blast
qed

lemma descend_legal:
  "(s, a) \<in> set (fst (descend tape n state d)) \<Longrightarrow> a \<in> set (actions s) \<and> \<not> terminal_test s"
proof (induction d arbitrary: n state)
  case 0
  then show ?case by simp
next
  case (Suc d)
  show ?case
  proof (cases "terminal_test state \<or> moves state = []")
    case True
    then have "fst (descend tape n state (Suc d)) = []"
      by (auto simp: choice_def)
    with Suc.prems show ?thesis by simp
  next
    case False
    then obtain x where ch: "choice tape n (moves state) = Inr (x, Suc n)"
      and mem: "x \<in> set (moves state)" using choice_total by blast
    obtain b c where x: "x = (b, c)" by (cases x)
    from mem x have b: "b \<in> set (actions state)" by (force simp: actions_def)
    from Suc.prems False ch x
    have "(s, a) = (state, b) \<or> (s, a) \<in> set (fst (descend tape (Suc n) c d))"
      by (auto split: prod.splits)
    with Suc.IH b False show ?thesis by auto
  qed
qed

lemma build_tree_descend:
  "playable state \<Longrightarrow> book_rec pairs book \<Longrightarrow>
   \<exists>r book'. build_tree tape n state book (int d) = Inr (r, book', episode_end tape n state d) \<and>
     book_rec (pairs \<union> set (fst (descend tape n state d))) book'"
proof (induction d arbitrary: n state)
  case 0
  from sim_loop_total [OF "0.prems"(1), of tape n]
  obtain final n' where sim: "sim_loop tape n state = Inr (final, n')" by blast
  have "int 0 \<le> 0 \<or> terminal_test state" by simp
  from build_tree_rollout [OF this sim] sim "0.prems"(2) show ?case
    by (simp add: episode_end_def)
next
  case (Suc d)
  show ?case
  proof (cases "terminal_test state")
    case True
    from sim_loop_total [OF Suc.prems(1), of tape n]
    obtain final n' where sim: "sim_loop tape n state = Inr (final, n')" by blast
    from True have "int (Suc d) \<le> 0 \<or> terminal_test state" by simp
    from build_tree_rollout [OF this sim] sim True Suc.prems(2) show ?thesis
      by (simp add: episode_end_def)
  next
    case False
    from playable_moves_of [OF Suc.prems(1) False]
    have ne: "moves state \<noteq> []" and pm: "playable_moves (moves state)" by simp_all
    from choice_total [OF ne] obtain x where ch: "choice tape n (moves state) = Inr (x, Suc n)"
      and mem: "x \<in> set (moves state)" by blast
    obtain a c where x: "x = (a, c)" by (cases x)
    from playable_child [OF pm mem] x have pc: "playable c" by simp
    from Suc.IH [OF pc Suc.prems(2), of "Suc n"]
    obtain reward book1 where rec:
      "build_tree tape (Suc n) c book (int d) = Inr (reward, book1, episode_end tape (Suc n) c d)"
      and ok1: "book_rec (pairs \<union> set (fst (descend tape (Suc n) c d))) book1" by blast
    from ch x have ch': "choice tape n (moves state) = Inr ((a, c), Suc n)" by simp
    have pos: "0 < int (Suc d)" by simp
    from rec have rec': "build_tree tape (Suc n) c book (int (Suc d) - 1) =
        Inr (reward, book1, episode_end tape (Suc n) c d)" by simp
    from build_tree_step [OF pos False ch' rec']
    have bt: "build_tree tape n state book (int (Suc d)) =
        Inr (- reward, book_add book1 (hashable state) a reward, episode_end tape (Suc n) c d)" .
    have de: "descend tape n state (Suc d) =
        ((state, a) # fst (descend tape (Suc n) c d), snd (descend tape (Suc n) c d))"
      using False ch' by (simp split: prod.splits)
    then have ee: "episode_end tape n state (Suc d) = episode_end tape (Suc n) c d"
      by (simp add: episode_end_def split: prod.splits)
    from book_rec_add [OF ok1, of state a reward] de
    have "book_rec (pairs \<union> set (fst (descend tape n state (Suc d))))
        (book_add book1 (hashable state) a reward)" by simp
    with bt ee show ?thesis by simp
  qed
qed

lemma rounds_episodes:
  "playable initial \<Longrightarrow> book_rec pairs book \<Longrightarrow>
   \<exists>book' n'. rounds tape n initial book k = Inr (book', n') \<and>
     book_rec (pairs \<union> set (episodes tape n initial k)) book'"
proof (induction k arbitrary: n book pairs)
  case 0
  then show ?case by simp
next
  case (Suc k)
  from build_tree_descend [OF Suc.prems(1) Suc.prems(2), of tape n 2]
  obtain r book1 where bt: "build_tree tape n initial book 2 =
      Inr (r, book1, episode_end tape n initial 2)"
    and ok1: "book_rec (pairs \<union> set (fst (descend tape n initial 2))) book1"
    by auto
  from Suc.IH [OF Suc.prems(1) ok1, of "episode_end tape n initial 2"]
  obtain book' n' where "rounds tape (episode_end tape n initial 2) initial book1 k = Inr (book', n')"
    and "book_rec (pairs \<union> set (fst (descend tape n initial 2)) \<union>
        set (episodes tape (episode_end tape n initial 2) initial k)) book'"
    by blast
  with bt show ?case by (simp add: Un_assoc)
qed

lemma max_key_loop_mem: "max_key_loop cs best best_count \<in> insert best (fst ` set cs)"
  by (induction cs best best_count rule: max_key_loop.induct) auto

lemma max_key_mem: "cs \<noteq> [] \<Longrightarrow> \<exists>a. max_key cs = Inr a \<and> a \<in> fst ` set cs"
proof (cases cs)
  case Nil
  assume "cs \<noteq> []"
  with Nil show ?thesis by simp
next
  case (Cons x rest)
  obtain a m where "x = (a, m)" by (cases x)
  with Cons max_key_loop_mem [of rest a m] show ?thesis by auto
qed

lemma collapse_keys:
  "\<forall>(k, cs) \<in> set book. cs \<noteq> [] \<Longrightarrow>
   \<exists>table. collapse book = Inr table \<and> map fst table = map fst book \<and>
     (\<forall>(k, a) \<in> set table. \<exists>cs. (k, cs) \<in> set book \<and> a \<in> fst ` set cs)"
proof (induction book)
  case Nil
  show ?case by simp
next
  case (Cons x book)
  obtain k cs where x: "x = (k, cs)" by (cases x)
  from Cons.prems x have cs: "cs \<noteq> []" and rest: "\<forall>(k, cs) \<in> set book. cs \<noteq> []"
    by simp_all
  from max_key_mem [OF cs] obtain a where a: "max_key cs = Inr a" "a \<in> fst ` set cs"
    by blast
  from Cons.IH [OF rest] obtain table where t: "collapse book = Inr table"
    "map fst table = map fst book"
    "\<forall>(k, a) \<in> set table. \<exists>cs. (k, cs) \<in> set book \<and> a \<in> fst ` set cs"
    by blast
  have "collapse (x # book) = Inr ((k, a) # table)"
    using a t x by simp
  moreover have "map fst ((k, a) # table) = map fst (x # book)"
    using t x by simp
  moreover have "\<forall>(j, b) \<in> set ((k, a) # table). \<exists>cs. (j, cs) \<in> set (x # book) \<and> b \<in> fst ` set cs"
  proof
    fix e
    assume e: "e \<in> set ((k, a) # table)"
    show "case e of (j, b) \<Rightarrow> \<exists>cs. (j, cs) \<in> set (x # book) \<and> b \<in> fst ` set cs"
    proof (cases "e = (k, a)")
      case True
      with a(2) x show ?thesis by auto
    next
      case False
      with e have "e \<in> set table" by simp
      with t(3) have "case e of (j, b) \<Rightarrow> \<exists>cs. (j, cs) \<in> set book \<and> b \<in> fst ` set cs"
        by blast
      then show ?thesis by (cases e) auto
    qed
  qed
  ultimately show ?case by blast
qed

text \<open>
  Claim C7. With no rounds \<^verbatim>\<open>build_table\<close> returns the empty table. With at least one
  round, from a non-terminal initial state of a game in which every non-terminal state has
  a legal action, and for every tape of random draws, it returns a non-empty table with
  one entry per key. Its keys are exactly the \<^verbatim>\<open>hashable\<close> keys of the states at which
  the episodes on that tape chose an action, and every value is an action that an episode
  chose at a state with that key, hence a legal action of that state.
\<close>

theorem build_table_book:
  "build_table tape initial 0 = Inr [] \<and>
   (0 < num_rounds \<and> \<not> terminal_test initial \<and> playable initial \<longrightarrow>
    (\<exists>table. build_table tape initial num_rounds = Inr table \<and> table \<noteq> [] \<and>
       distinct (map fst table) \<and>
       set (map fst table) =
         set (map (\<lambda>(s, a). hashable s) (episodes tape 0 initial (nat num_rounds))) \<and>
       (\<forall>(k, a) \<in> set table.
          \<exists>s. (s, a) \<in> set (episodes tape 0 initial (nat num_rounds)) \<and>
              hashable s = k \<and> a \<in> set (actions s))))"
proof
  show "build_table tape initial 0 = Inr []"
    by (simp add: build_table_def)
next
  let ?eps = "episodes tape 0 initial (nat num_rounds)"
  show "0 < num_rounds \<and> \<not> terminal_test initial \<and> playable initial \<longrightarrow>
    (\<exists>table. build_table tape initial num_rounds = Inr table \<and> table \<noteq> [] \<and>
       distinct (map fst table) \<and>
       set (map fst table) = set (map (\<lambda>(s, a). hashable s) ?eps) \<and>
       (\<forall>(k, a) \<in> set table.
          \<exists>s. (s, a) \<in> set ?eps \<and> hashable s = k \<and> a \<in> set (actions s)))"
  proof
    assume h: "0 < num_rounds \<and> \<not> terminal_test initial \<and> playable initial"
    then have pl: "playable initial" and nt: "\<not> terminal_test initial" by simp_all
    from h obtain k where k: "nat num_rounds = Suc k" by (cases "nat num_rounds") auto
    from rounds_episodes [OF pl book_rec_empty, of tape 0 "nat num_rounds"]
    obtain book n where r: "rounds tape 0 initial [] (nat num_rounds) = Inr (book, n)"
      and ok: "book_rec (set ?eps) book"
      by auto
    from ok have d: "distinct (map fst book)"
      and keys: "set (map fst book) = (\<lambda>p. hashable (fst p)) ` set ?eps"
      and ent: "\<forall>e \<in> set book. snd e \<noteq> [] \<and>
        (\<forall>b \<in> fst ` set (snd e). \<exists>s. (s, b) \<in> set ?eps \<and> hashable s = fst e)"
      by (simp_all add: book_rec_iff)
    from ent have "\<forall>(k, cs) \<in> set book. cs \<noteq> []" by auto
    from collapse_keys [OF this] obtain table where c: "collapse book = Inr table"
      and tk: "map fst table = map fst book"
      and tv: "\<forall>(k, a) \<in> set table. \<exists>cs. (k, cs) \<in> set book \<and> a \<in> fst ` set cs"
      by blast
    from playable_moves_of [OF pl nt] have ne: "moves initial \<noteq> []" by simp
    from choice_total [OF ne] obtain x where "choice tape 0 (moves initial) = Inr (x, Suc 0)"
      by blast
    with nt have "fst (descend tape 0 initial 2) \<noteq> []"
      by (cases x) (simp add: numeral_2_eq_2 split: prod.splits)
    with k have "?eps \<noteq> []" by simp
    then have "set (map fst book) \<noteq> {}" unfolding keys by simp
    with tk have ne': "table \<noteq> []" by (cases table) auto
    have legal: "\<exists>s. (s, a) \<in> set ?eps \<and> hashable s = k \<and> a \<in> set (actions s)"
      if "(k, a) \<in> set table" for k a
    proof -
      from tv that obtain cs where m: "(k, cs) \<in> set book" and a: "a \<in> fst ` set cs" by blast
      from ent m have "snd (k, cs) \<noteq> [] \<and>
        (\<forall>b \<in> fst ` set (snd (k, cs)). \<exists>s. (s, b) \<in> set ?eps \<and> hashable s = fst (k, cs))"
        by (rule bspec)
      with a obtain s where s: "(s, a) \<in> set ?eps" "hashable s = k" by auto
      have "a \<in> set (actions s)" if "(s, a) \<in> set (episodes tape m initial j)" for m j
        using that by (induction j arbitrary: m) (auto dest: descend_legal)
      with s show ?thesis by blast
    qed
    have dt: "distinct (map fst table)"
      using d tk by simp
    have kt: "set (map fst table) = set (map (\<lambda>(s, a). hashable s) ?eps)"
      unfolding tk keys by (simp add: case_prod_beta)
    have lt: "\<forall>(k, a) \<in> set table.
        \<exists>s. (s, a) \<in> set ?eps \<and> hashable s = k \<and> a \<in> set (actions s)"
      using legal by blast
    have bt: "build_table tape initial num_rounds = Inr table"
      using r c by (simp add: build_table_def)
    from bt ne' dt kt lt
    show "\<exists>table. build_table tape initial num_rounds = Inr table \<and> table \<noteq> [] \<and>
       distinct (map fst table) \<and>
       set (map fst table) = set (map (\<lambda>(s, a). hashable s) ?eps) \<and>
       (\<forall>(k, a) \<in> set table.
          \<exists>s. (s, a) \<in> set ?eps \<and> hashable s = k \<and> a \<in> set (actions s))"
      by blast
  qed
qed

theorem build_table_book_witness:
  "0 < (1::int) \<and> \<not> terminal_test small_game \<and> playable small_game \<and>
   build_table zero_tape small_game 0 = Inr [] \<and>
   build_table zero_tape small_game 1 = Inr [(2, (1, 1)), (1, (0, 0))] \<and>
   episodes zero_tape 0 small_game 1 = [(small_game, (0, 0)), (reply_state, (1, 1))] \<and>
   hashable small_game = 1 \<and> hashable reply_state = 2 \<and>
   (\<exists>table. build_table zero_tape small_game 1 = Inr table \<and> table \<noteq> [] \<and>
      distinct (map fst table) \<and>
      set (map fst table) =
        set (map (\<lambda>(s, a). hashable s) (episodes zero_tape 0 small_game (nat 1))) \<and>
      (\<forall>(k, a) \<in> set table.
         \<exists>s. (s, a) \<in> set (episodes zero_tape 0 small_game (nat 1)) \<and>
             hashable s = k \<and> a \<in> set (actions s)))"
proof -
  have h: "0 < (1::int) \<and> \<not> terminal_test small_game \<and> playable small_game"
    by (simp add: small_game_def reply_state_def won_leaf_def lost_leaf_def)
  have leaf: "sim_loop zero_tape 2 lost_leaf = Inr (lost_leaf, 2)"
    by (simp add: lost_leaf_def)
  have u: "utility lost_leaf (parity lost_leaf) < Fin 0"
    by (simp add: lost_leaf_def)
  have b0: "build_tree zero_tape 2 lost_leaf [] 0 = Inr (1, [], 2)"
    using build_tree_rollout [of 0 lost_leaf zero_tape 2 lost_leaf 2 "[]"] leaf u by simp
  have c1: "choice zero_tape 1 (moves reply_state) = Inr (((1, 1), lost_leaf), 2)"
    by (simp add: reply_state_def choice_def zero_tape_def)
  have c0: "choice zero_tape 0 (moves small_game) = Inr (((0, 0), reply_state), 1)"
    by (simp add: small_game_def choice_def zero_tape_def)
  have t1: "\<not> terminal_test reply_state" "hashable reply_state = 2"
    by (simp_all add: reply_state_def)
  have t0: "\<not> terminal_test small_game" "hashable small_game = 1"
    by (simp_all add: small_game_def)
  have b1: "build_tree zero_tape 1 reply_state [] 1 = Inr (- 1, [(2, [((1, 1), 1)])], 2)"
    using build_tree_step [of 1 reply_state zero_tape 1 "(1, 1)" lost_leaf 2 "[]" 1 "[]" 2]
      t1 c1 b0 by simp
  have b2: "build_tree zero_tape 0 small_game [] 2 =
      Inr (1, [(2, [((1, 1), 1)]), (1, [((0, 0), - 1)])], 2)"
    using build_tree_step [of 2 small_game zero_tape 0 "(0, 0)" reply_state 1 "[]" "- 1"
        "[(2, [((1, 1), 1)])]" 2]
      t0 c0 b1 by simp
  have e: "build_table zero_tape small_game 1 = Inr [(2, (1, 1)), (1, (0, 0))]"
    by (simp add: build_table_def b2)
  have d1: "descend zero_tape 1 reply_state (Suc 0) = ([(reply_state, (1, 1))], lost_leaf, 2)"
    using t1 c1 by simp
  have d0: "descend zero_tape 0 small_game (Suc (Suc 0)) =
      ([(small_game, (0, 0)), (reply_state, (1, 1))], lost_leaf, 2)"
    using t0 c0 d1 by simp
  have ep: "episodes zero_tape 0 small_game 1 = [(small_game, (0, 0)), (reply_state, (1, 1))]"
    using d0 by (simp add: numeral_2_eq_2)
  from build_table_book [of zero_tape small_game 1] h e ep t0 t1 show ?thesis
    by blast
qed

end
